theory Spec2Isabelle
  imports Complex_Main "HOL-Library.Multiset" "HOL-Library.Sublist"
begin

section \<open>Values of the decoded document\<close>

text \<open>
  A Python \<open>str\<close> is a sequence of Unicode code points, so it is a list of naturals here
  (\<open>chr\<close> reaches beyond one byte); \<open>str\<close> turns a literal into such a sequence.
\<close>

type_synonym pystr = "nat list"

definition str :: "string \<Rightarrow> pystr" where
  "str s = map of_char s"

text \<open>
  What \<open>json.loads\<close> returns: \<open>None\<close>, a \<open>bool\<close>, a number (by its value: Python compares
  \<open>int\<close> and \<open>float\<close> by value; the non-finite floats are outside the model), a \<open>str\<close>, a
  \<open>list\<close>, or a \<open>dict\<close> with string keys, as its items in insertion order.
\<close>

datatype json =
    JNull
  | JBool bool
  | JNum rat
  | JStr pystr
  | JArr "json list"
  | JObj "(pystr \<times> json) list"

text \<open>A \<open>dict\<close> has each key once: every item list of the value has distinct keys.\<close>

fun wf_json :: "json \<Rightarrow> bool"
  and wf_list :: "json list \<Rightarrow> bool"
  and wf_items :: "(pystr \<times> json) list \<Rightarrow> bool"
where
  "wf_json (JArr xs) = wf_list xs"
| "wf_json (JObj kvs) = (distinct (map fst kvs) \<and> wf_items kvs)"
| "wf_json _ = True"
| "wf_list [] = True"
| "wf_list (x # xs) = (wf_json x \<and> wf_list xs)"
| "wf_items [] = True"
| "wf_items ((k, v) # kvs) = (wf_json v \<and> wf_items kvs)"

text \<open>Python's \<open>==\<close> on these values: \<open>True == 1\<close>, lists by position, dicts by key.\<close>

fun py_eq :: "json \<Rightarrow> json \<Rightarrow> bool"
  and py_eq_list :: "json list \<Rightarrow> json list \<Rightarrow> bool"
  and py_eq_items :: "(pystr \<times> json) list \<Rightarrow> (pystr \<times> json) list \<Rightarrow> bool"
  and py_eq_get :: "json \<Rightarrow> pystr \<Rightarrow> (pystr \<times> json) list \<Rightarrow> bool"
where
  "py_eq JNull y = (case y of JNull \<Rightarrow> True | _ \<Rightarrow> False)"
| "py_eq (JBool a) y =
     (case y of JBool b \<Rightarrow> a = b | JNum n \<Rightarrow> of_bool a = n | _ \<Rightarrow> False)"
| "py_eq (JNum m) y =
     (case y of JBool b \<Rightarrow> m = of_bool b | JNum n \<Rightarrow> m = n | _ \<Rightarrow> False)"
| "py_eq (JStr s) y = (case y of JStr t \<Rightarrow> s = t | _ \<Rightarrow> False)"
| "py_eq (JArr xs) y = (case y of JArr ys \<Rightarrow> py_eq_list xs ys | _ \<Rightarrow> False)"
| "py_eq (JObj xs) y =
     (case y of JObj ys \<Rightarrow> length xs = length ys \<and> py_eq_items xs ys | _ \<Rightarrow> False)"
| "py_eq_list [] ys = (ys = [])"
| "py_eq_list (x # xs) ys =
     (case ys of [] \<Rightarrow> False | y # ys' \<Rightarrow> py_eq x y \<and> py_eq_list xs ys')"
| "py_eq_items [] ys = True"
| "py_eq_items ((k, v) # xs) ys = (py_eq_get v k ys \<and> py_eq_items xs ys)"
| "py_eq_get v k [] = False"
| "py_eq_get v k ((k', w) # ys) = (if k = k' then py_eq v w else py_eq_get v k ys)"

text \<open>
  \<open>x in xs\<close> and \<open>xs.index(x)\<close> compare each element with \<open>x\<close>, first to last. Python
  tries identity before \<open>==\<close>; on these values an object is always equal to itself, so
  \<open>==\<close> alone decides.
\<close>

fun py_in :: "json \<Rightarrow> json list \<Rightarrow> bool" where
  "py_in x [] = False"
| "py_in x (e # es) = (py_eq e x \<or> py_in x es)"

fun py_index :: "json \<Rightarrow> json list \<Rightarrow> nat option" where
  "py_index x [] = None"
| "py_index x (e # es) =
     (if py_eq e x then Some 0 else map_option Suc (py_index x es))"

text \<open>Truth value of a decoded document, as \<open>not story_data\<close> tests it.\<close>

fun truthy :: "json \<Rightarrow> bool" where
  "truthy JNull = False"
| "truthy (JBool b) = b"
| "truthy (JNum n) = (n \<noteq> 0)"
| "truthy (JStr s) = (s \<noteq> [])"
| "truthy (JArr xs) = (xs \<noteq> [])"
| "truthy (JObj kvs) = (kvs \<noteq> [])"

fun isinstance_dict :: "json \<Rightarrow> bool" where
  "isinstance_dict (JObj kvs) = True"
| "isinstance_dict _ = False"

section \<open>Nodes, links and exceptions\<close>

datatype Node = Node (node_name: pystr) (node_children: json) (node_id: pystr)

datatype Link = Link (link_event: pystr) (link_option: pystr) (link_children: json)

datatype exn = ValueError | AttributeError | IndexError

text \<open>What \<open>parse_story\<close> returns: \<open>(None, None, None)\<close> or \<open>(events, labels, links)\<close>.\<close>

datatype retval =
    NoneTriple
  | Graph (graph_events: "json list") (graph_labels: "pystr list list")
      (graph_links: "Link list")

text \<open>\<open>chr\<close> raises \<open>ValueError\<close> outside \<open>range(0x110000)\<close>.\<close>

definition chr :: "nat \<Rightarrow> exn + pystr" where
  "chr n = (if n < 1114112 then Inr [n] else Inl ValueError)"

text \<open>The decimal digits of a natural, as the f-string renders \<open>idx+branch_idx\<close>.\<close>

fun str_of_nat :: "nat \<Rightarrow> pystr" where
  "str_of_nat n =
     (if n < 10 then [48 + n] else str_of_nat (n div 10) @ [48 + n mod 10])"

declare str_of_nat.simps [simp del]

section \<open>The flattening pass\<close>

text \<open>
  Lines 76-80 and 91-95: a name not yet in \<open>events\<close> is appended with a fresh label list,
  otherwise the path id joins the label list at the name's index.
\<close>

definition record_label ::
  "json \<Rightarrow> pystr \<Rightarrow> json list \<Rightarrow> pystr list list \<Rightarrow> exn + (json list \<times> pystr list list)"
where
  "record_label x pid events labels =
     (if \<not> py_in x events then Inr (events @ [x], labels @ [[pid]])
      else (case py_index x events of
              None \<Rightarrow> Inl ValueError
            | Some i \<Rightarrow>
                if i < length labels
                then Inr (events, labels[i := labels ! i @ [pid]])
                else Inl IndexError))"

text \<open>The nodes pushed for one nested mapping (lines 84-87).\<close>

definition child_nodes :: "Node \<Rightarrow> nat \<Rightarrow> (pystr \<times> json) list \<Rightarrow> Node list" where
  "child_nodes node branch_idx outcome =
     map (\<lambda>(idx, (event, outcomes)).
            Node event outcomes (node_id node @ str ''-'' @ str_of_nat (idx + branch_idx)))
         (enumerate 0 outcome)"

text \<open>The \<open>for option, outcome in node.children.items()\<close> loop (lines 81-95).\<close>

fun for_children ::
  "Node \<Rightarrow> (pystr \<times> json) list
     \<Rightarrow> nat \<times> Node list \<times> json list \<times> pystr list list \<times> Link list
     \<Rightarrow> exn + (nat \<times> Node list \<times> json list \<times> pystr list list \<times> Link list)"
where
  "for_children node [] s = Inr s"
| "for_children node ((option, outcome) # rest) (branch_idx, nodes, events, labels, links) =
     (case outcome of
        JObj items \<Rightarrow>
          for_children node rest
            (branch_idx + length items,
             nodes @ child_nodes node branch_idx items,
             events, labels,
             links @ map (\<lambda>name. Link (node_name node) option (JStr name)) (map fst items))
      | _ \<Rightarrow>
          (case record_label outcome (node_id node @ str ''-end'') events labels of
             Inl e \<Rightarrow> Inl e
           | Inr (events', labels') \<Rightarrow>
               for_children node rest
                 (branch_idx, nodes, events', labels',
                  links @ [Link (node_name node) option outcome])))"

text \<open>One iteration of \<open>while nodes\<close> (lines 74-95), on a non-empty work list.\<close>

definition loop_body ::
  "Node list \<times> json list \<times> pystr list list \<times> Link list
     \<Rightarrow> exn + (Node list \<times> json list \<times> pystr list list \<times> Link list)"
where
  "loop_body s =
     (case s of (nodes, events, labels, links) \<Rightarrow>
        let node = last nodes; nodes' = butlast nodes in
        (case record_label (JStr (node_name node)) (node_id node) events labels of
           Inl e \<Rightarrow> Inl e
         | Inr (events', labels') \<Rightarrow>
             (case node_children node of
                JObj items \<Rightarrow>
                  (case for_children node items (0, nodes', events', labels', links) of
                     Inl e \<Rightarrow> Inl e
                   | Inr (branch_idx, s') \<Rightarrow> Inr s')
              | _ \<Rightarrow> Inl AttributeError)))"

text \<open>The \<open>while nodes\<close> loop; \<open>None\<close> stands for a loop that never ends.\<close>

partial_function (option) while_nodes ::
  "Node list \<times> json list \<times> pystr list list \<times> Link list \<Rightarrow> (exn + retval) option"
where
  "while_nodes s =
     (if fst s = [] then Some (Inr (Graph (fst (snd s)) (fst (snd (snd s))) (snd (snd (snd s)))))
      else (case loop_body s of
              Inl e \<Rightarrow> Some (Inl e)
            | Inr s' \<Rightarrow> while_nodes s'))"

text \<open>The list comprehension of lines 66-69: one node per top-level entry.\<close>

fun seed_nodes :: "nat \<Rightarrow> (pystr \<times> json) list \<Rightarrow> exn + Node list" where
  "seed_nodes idx [] = Inr []"
| "seed_nodes idx ((event, outcomes) # rest) =
     (case chr (65 + idx) of
        Inl e \<Rightarrow> Inl e
      | Inr c \<Rightarrow>
          (case seed_nodes (Suc idx) rest of
             Inl e \<Rightarrow> Inl e
           | Inr ns \<Rightarrow> Inr (Node event outcomes c # ns)))"

text \<open>\<open>parse_story\<close>, from the decoded document on (lines 64-96).\<close>

definition parse_story :: "json \<Rightarrow> (exn + retval) option" where
  "parse_story story_data =
     (if \<not> truthy story_data \<or> \<not> isinstance_dict story_data then Some (Inr NoneTriple)
      else (case story_data of
              JObj items \<Rightarrow>
                (case seed_nodes 0 items of
                   Inl e \<Rightarrow> Some (Inl e)
                 | Inr nodes \<Rightarrow> while_nodes (nodes, [], [], []))
            | _ \<Rightarrow> Some (Inr NoneTriple)))"

section \<open>Notions used in the statements\<close>

text \<open>
  The weight of a work list counts every value still to be walked; the entries of the
  nested mappings among a node's outcomes, in order, are the children pushed for it.
\<close>

definition stack_weight :: "Node list \<Rightarrow> nat" where
  "stack_weight nodes = sum_list (map (\<lambda>n. Suc (size (node_children n))) nodes)"

definition items_weight :: "(pystr \<times> json) list \<Rightarrow> nat" where
  "items_weight items = sum_list (map (\<lambda>kv. Suc (size (snd kv))) items)"

definition nested_entries :: "(pystr \<times> json) list \<Rightarrow> (pystr \<times> json) list" where
  "nested_entries items =
     concat (map (\<lambda>(option, outcome). case outcome of JObj sub \<Rightarrow> sub | _ \<Rightarrow> []) items)"

text \<open>
  A link is known when its source is in \<open>events\<close> and its target is in \<open>events\<close> or is the
  name of a node still on the work list; \<open>links_inv\<close> is the loop invariant built on it.
\<close>

definition link_known :: "Node list \<Rightarrow> json list \<Rightarrow> Link \<Rightarrow> bool" where
  "link_known nodes events l =
     (py_in (JStr (link_event l)) events
      \<and> (py_in (link_children l) events
         \<or> link_children l \<in> (\<lambda>n. JStr (node_name n)) ` set nodes))"

definition links_inv ::
  "Node list \<times> json list \<times> pystr list list \<times> Link list \<Rightarrow> bool" where
  "links_inv s =
     (case s of (nodes, events, labels, links) \<Rightarrow>
        list_all (\<lambda>n. wf_json (node_children n)) nodes
        \<and> list_all (link_known nodes events) links)"



section \<open>Unfolding the loop\<close>

lemma while_nodes_Nil:
  "while_nodes ([], events, labels, links) = Some (Inr (Graph events labels links))"
  by (simp add: while_nodes.simps)

lemma while_nodes_Cons:
  "while_nodes (n # ns, events, labels, links) =
     (case loop_body (n # ns, events, labels, links) of
        Inl e \<Rightarrow> Some (Inl e)
      | Inr s' \<Rightarrow> while_nodes s')"
  by (subst while_nodes.simps) simp

lemmas run_simps =
  parse_story_def while_nodes_Nil while_nodes_Cons loop_body_def record_label_def
  chr_def child_nodes_def str_def str_of_nat.simps enumerate_eq_zip

section \<open>One iteration shrinks the work list\<close>

lemma loop_body_Inr:
  assumes "loop_body (nodes, events, labels, links) = Inr (nodes', events', labels', links')"
  obtains items events1 labels1 b where
    "node_children (last nodes) = JObj items"
    "record_label (JStr (node_name (last nodes))) (node_id (last nodes)) events labels
       = Inr (events1, labels1)"
    "for_children (last nodes) items (0, butlast nodes, events1, labels1, links)
       = Inr (b, nodes', events', labels', links')"
  using assms unfolding loop_body_def
  by (auto simp: Let_def split: sum.splits json.splits prod.splits)

lemma length_child_nodes [simp]: "length (child_nodes node b xs) = length xs"
  by (simp add: child_nodes_def)

lemma nth_child_nodes:
  "k < length xs \<Longrightarrow>
     child_nodes node b xs ! k =
       Node (fst (xs ! k)) (snd (xs ! k)) (node_id node @ str ''-'' @ str_of_nat (k + b))"
  by (simp add: child_nodes_def nth_enumerate_eq split: prod.splits)

lemma child_nodes_append:
  "child_nodes node b (xs @ ys) = child_nodes node b xs @ child_nodes node (b + length xs) ys"
  by (rule nth_equalityI) (auto simp: nth_child_nodes nth_append add.commute add.left_commute)

lemma for_children_nodes:
  "for_children node items (b, nodes, events, labels, links) = Inr (b', nodes', events', labels', links')
     \<Longrightarrow> b' = b + length (nested_entries items)
         \<and> nodes' = nodes @ child_nodes node b (nested_entries items)"
proof (induction items arbitrary: b nodes events labels links)
  case Nil
  then show ?case by (simp add: nested_entries_def child_nodes_def)
next
  case (Cons kv items)
  obtain option outcome where kv: "kv = (option, outcome)" by (cases kv)
  show ?case
  proof (cases outcome)
    case (JObj sub)
    with Cons.prems kv have
      "for_children node items (b + length sub, nodes @ child_nodes node b sub, events, labels,
         links @ map (\<lambda>name. Link (node_name node) option (JStr name)) (map fst sub))
       = Inr (b', nodes', events', labels', links')" by simp
    from Cons.IH [OF this] show ?thesis
      using kv JObj by (simp add: nested_entries_def child_nodes_append)
  qed (use Cons kv in \<open>auto simp: nested_entries_def split: sum.splits\<close>)
qed

lemma items_weight_le: "items_weight items < size (JObj items)"
  unfolding items_weight_def by (induction items) auto

lemma stack_weight_append [simp]:
  "stack_weight (xs @ ys) = stack_weight xs + stack_weight ys"
  by (simp add: stack_weight_def)

lemma stack_weight_child_nodes: "stack_weight (child_nodes node b xs) = items_weight xs"
  unfolding stack_weight_def items_weight_def child_nodes_def
  by (induction xs arbitrary: b rule: rev_induct) (auto simp: enumerate_append_eq)

lemma items_weight_nested: "items_weight (nested_entries items) \<le> items_weight items"
proof (induction items)
  case Nil show ?case by (simp add: nested_entries_def)
next
  case (Cons kv items)
  obtain option outcome where kv: "kv = (option, outcome)" by (cases kv)
  have "items_weight (case outcome of JObj sub \<Rightarrow> sub | _ \<Rightarrow> []) \<le> Suc (size outcome)"
  proof (cases outcome)
    case (JObj sub)
    have "items_weight sub < size (JObj sub)" by (rule items_weight_le)
    then have "items_weight sub \<le> Suc (size (JObj sub))" by linarith
    then show ?thesis by (simp only: JObj json.case)
  qed (simp_all add: items_weight_def)
  with Cons show ?case
    by (simp add: kv nested_entries_def items_weight_def)
qed

lemma loop_body_weight:
  assumes "fst s \<noteq> []" "loop_body s = Inr s'"
  shows "stack_weight (fst s') < stack_weight (fst s)"
proof -
  obtain nodes events labels links where s: "s = (nodes, events, labels, links)"
    by (cases s)
  obtain nodes' events' labels' links' where s': "s' = (nodes', events', labels', links')"
    by (cases s')
  from assms(2) s s' obtain items events1 labels1 b where
    ch: "node_children (last nodes) = JObj items" and
    fc: "for_children (last nodes) items (0, butlast nodes, events1, labels1, links)
       = Inr (b, nodes', events', labels', links')"
    by (auto elim: loop_body_Inr)
  from for_children_nodes [OF fc]
  have "stack_weight nodes' = stack_weight (butlast nodes) + items_weight (nested_entries items)"
    by (simp add: stack_weight_child_nodes)
  also have "\<dots> \<le> stack_weight (butlast nodes) + items_weight items"
    using items_weight_nested by simp
  also have "\<dots> < stack_weight (butlast nodes) + Suc (size (node_children (last nodes)))"
    using items_weight_le [of items] ch by simp
  also have "\<dots> = stack_weight (butlast nodes @ [last nodes])"
    by (simp add: stack_weight_def)
  also have "\<dots> = stack_weight nodes"
    using assms(1) s by simp
  finally show ?thesis using s s' by simp
qed

lemma while_nodes_returns: "\<exists>r. while_nodes s = Some r"
proof (induction "stack_weight (fst s)" arbitrary: s rule: less_induct)
  case less
  show ?case
  proof (cases "fst s = []")
    case True
    then show ?thesis by (subst while_nodes.simps) simp
  next
    case False
    show ?thesis
    proof (cases "loop_body s")
      case (Inl e)
      with False show ?thesis by (subst while_nodes.simps) simp
    next
      case (Inr s')
      from loop_body_weight [OF False Inr] less obtain r where "while_nodes s' = Some r"
        by blast
      with False Inr show ?thesis by (subst while_nodes.simps) simp
    qed
  qed
qed

lemma while_nodes_invariant:
  assumes "while_nodes s = Some (Inr (Graph events labels links))"
    and "I s"
    and step: "\<And>s s'. I s \<Longrightarrow> fst s \<noteq> [] \<Longrightarrow> loop_body s = Inr s' \<Longrightarrow> I s'"
  shows "I ([], events, labels, links)"
  using assms(1,2)
proof (induction "stack_weight (fst s)" arbitrary: s rule: less_induct)
  case less
  show ?case
  proof (cases "fst s = []")
    case True
    with less.prems(1) have "s = ([], events, labels, links)"
      by (subst (asm) while_nodes.simps) (auto simp: prod_eq_iff)
    with less.prems(2) show ?thesis by simp
  next
    case False
    show ?thesis
    proof (cases "loop_body s")
      case (Inl e)
      with False less.prems(1) show ?thesis by (subst (asm) while_nodes.simps) simp
    next
      case (Inr s')
      with False less.prems(1) have "while_nodes s' = Some (Inr (Graph events labels links))"
        by (subst (asm) while_nodes.simps) simp
      moreover have "I s'" using step [OF less.prems(2) False Inr] .
      ultimately show ?thesis
        using less.hyps [OF loop_body_weight [OF False Inr]] by blast
    qed
  qed
qed

section \<open>What one iteration does to events and labels\<close>

lemma parse_story_Graph:
  assumes "parse_story story_data = Some (Inr (Graph events labels links))"
  obtains items nodes where
    "story_data = JObj items" "items \<noteq> []" "seed_nodes 0 items = Inr nodes"
    "while_nodes (nodes, [], [], []) = Some (Inr (Graph events labels links))"
  using assms unfolding parse_story_def
  by (cases story_data) (auto split: if_splits sum.splits)

lemma record_label_shape:
  assumes "record_label x pid events labels = Inr (events', labels')"
    and "length events = length labels" and "[] \<notin> set labels"
  shows "length events' = length labels' \<and> [] \<notin> set labels'"
proof (cases "py_in x events")
  case False
  with assms show ?thesis by (auto simp: record_label_def)
next
  case True
  with assms(1) obtain i where i: "i < length labels"
    and eq: "events' = events" "labels' = labels[i := labels ! i @ [pid]]"
    by (auto simp: record_label_def split: option.splits if_splits)
  have "set (labels[i := labels ! i @ [pid]]) \<subseteq> insert (labels ! i @ [pid]) (set labels)"
    by (rule set_update_subset_insert)
  with assms(2,3) eq show ?thesis by auto
qed

lemma for_children_events_labels:
  assumes "for_children node items (b, nodes, events, labels, links)
             = Inr (b', nodes', events', labels', links')"
    and "P events labels"
    and rec: "\<And>x pid ev lb ev' lb'.
        P ev lb \<Longrightarrow> record_label x pid ev lb = Inr (ev', lb') \<Longrightarrow> P ev' lb'"
  shows "P events' labels'"
  using assms(1,2)
proof (induction items arbitrary: b nodes events labels links)
  case Nil
  then show ?case by simp
next
  case (Cons kv items)
  obtain option outcome where kv: "kv = (option, outcome)" by (cases kv)
  show ?case
  proof (cases "isinstance_dict outcome")
    case True
    then obtain sub where "outcome = JObj sub" by (cases outcome) auto
    with Cons.prems kv show ?thesis by (auto intro: Cons.IH)
  next
    case False
    with Cons.prems(1) kv obtain ev1 lb1 where
      r: "record_label outcome (node_id node @ str ''-end'') events labels = Inr (ev1, lb1)"
      and f: "for_children node items
            (b, nodes, ev1, lb1, links @ [Link (node_name node) option outcome])
          = Inr (b', nodes', events', labels', links')"
      by (cases outcome) (auto split: sum.splits)
    from rec [OF Cons.prems(2) r] f show ?thesis by (rule Cons.IH [rotated])
  qed
qed

lemma loop_body_events_labels:
  assumes "loop_body (nodes, events, labels, links) = Inr (nodes', events', labels', links')"
    and "P events labels"
    and rec: "\<And>x pid ev lb ev' lb'.
        P ev lb \<Longrightarrow> record_label x pid ev lb = Inr (ev', lb') \<Longrightarrow> P ev' lb'"
  shows "P events' labels'"
proof -
  from assms(1) obtain items events1 labels1 b where
    r: "record_label (JStr (node_name (last nodes))) (node_id (last nodes)) events labels
       = Inr (events1, labels1)" and
    f: "for_children (last nodes) items (0, butlast nodes, events1, labels1, links)
       = Inr (b, nodes', events', labels', links')"
    by (rule loop_body_Inr)
  from f rec [OF assms(2) r] rec show ?thesis by (rule for_children_events_labels)
qed

section \<open>Python equality and the links invariant\<close>

lemma wf_list_iff: "wf_list xs \<longleftrightarrow> (\<forall>x\<in>set xs. wf_json x)"
  by (induction xs) auto

lemma wf_items_iff: "wf_items kvs \<longleftrightarrow> (\<forall>kv\<in>set kvs. wf_json (snd kv))"
  by (induction kvs) auto

lemma py_eq_list_refl: "(\<forall>x\<in>set xs. py_eq x x) \<Longrightarrow> py_eq_list xs xs"
  by (induction xs) auto

lemma py_eq_get_member:
  "(k, v) \<in> set ys \<Longrightarrow> distinct (map fst ys) \<Longrightarrow> py_eq v v \<Longrightarrow> py_eq_get v k ys"
  by (induction ys) (auto simp: rev_image_eqI)

lemma py_eq_items_subset:
  "set xs \<subseteq> set ys \<Longrightarrow> distinct (map fst ys) \<Longrightarrow> (\<forall>kv\<in>set xs. py_eq (snd kv) (snd kv))
     \<Longrightarrow> py_eq_items xs ys"
  by (induction xs) (auto intro: py_eq_get_member)

lemma py_eq_refl: "wf_json x \<Longrightarrow> py_eq x x"
proof (induction x)
  case (JArr xs)
  then show ?case by (auto simp: wf_list_iff intro: py_eq_list_refl)
next
  case (JObj kvs)
  have "py_eq (snd kv) (snd kv)" if "kv \<in> set kvs" for kv
    using JObj.IH [of kv "snd kv"] JObj.prems that
    by (cases kv) (auto simp: wf_items_iff)
  with JObj.prems show ?case by (auto intro: py_eq_items_subset)
qed simp_all

lemma py_in_append [simp]: "py_in x (es @ fs) \<longleftrightarrow> py_in x es \<or> py_in x fs"
  by (induction es) auto

lemma record_label_mono:
  "record_label x pid events labels = Inr (events', labels') \<Longrightarrow> py_in y events
     \<Longrightarrow> py_in y events'"
  by (auto simp: record_label_def split: if_splits option.splits)

lemma record_label_known:
  "record_label x pid events labels = Inr (events', labels') \<Longrightarrow> py_eq x x
     \<Longrightarrow> py_in x events'"
  by (auto simp: record_label_def split: if_splits option.splits)

lemma link_known_mono:
  assumes "link_known nodes events l"
    and "\<And>y. py_in y events \<Longrightarrow> py_in y events'"
    and "\<And>n. n \<in> set nodes \<Longrightarrow> n \<in> set nodes' \<or> py_in (JStr (node_name n)) events'"
  shows "link_known nodes' events' l"
proof -
  from assms(1) have src: "py_in (JStr (link_event l)) events"
    and tgt: "py_in (link_children l) events
      \<or> link_children l \<in> (\<lambda>n. JStr (node_name n)) ` set nodes"
    by (simp_all add: link_known_def)
  from tgt have "py_in (link_children l) events'
      \<or> link_children l \<in> (\<lambda>n. JStr (node_name n)) ` set nodes'"
  proof
    assume "py_in (link_children l) events"
    then show ?thesis by (simp add: assms(2))
  next
    assume "link_children l \<in> (\<lambda>n. JStr (node_name n)) ` set nodes"
    then obtain n where n: "n \<in> set nodes" "link_children l = JStr (node_name n)" by auto
    from assms(3) [OF n(1)] n(2) show ?thesis by auto
  qed
  with assms(2) [OF src] show ?thesis by (simp add: link_known_def)
qed

lemma node_name_child_nodes: "map node_name (child_nodes node b sub) = map fst sub"
  by (rule nth_equalityI) (simp_all add: nth_child_nodes)

lemma for_children_links:
  assumes "for_children node items (b, nodes, events, labels, links)
             = Inr (b', nodes', events', labels', links')"
    and "\<forall>l\<in>set links. link_known nodes events l"
    and "py_in (JStr (node_name node)) events"
    and "wf_items items"
  shows "\<forall>l\<in>set links'. link_known nodes' events' l"
  using assms
proof (induction items arbitrary: b nodes events labels links)
  case Nil
  then show ?case by simp
next
  case (Cons kv items)
  obtain option outcome where kv: "kv = (option, outcome)" by (cases kv)
  from Cons.prems(4) kv have wf: "wf_json outcome" "wf_items items" by simp_all
  show ?case
  proof (cases "isinstance_dict outcome")
    case True
    then obtain sub where sub: "outcome = JObj sub" by (cases outcome) auto
    let ?nodes = "nodes @ child_nodes node b sub"
    let ?links = "links @ map (\<lambda>name. Link (node_name node) option (JStr name)) (map fst sub)"
    from Cons.prems(1) kv sub have f:
      "for_children node items (b + length sub, ?nodes, events, labels, ?links)
         = Inr (b', nodes', events', labels', links')" by simp
    have "link_known ?nodes events l" if "l \<in> set ?links" for l
    proof (cases "l \<in> set links")
      case True
      with Cons.prems(2) have "link_known nodes events l" by blast
      then show ?thesis by (rule link_known_mono) auto
    next
      case False
      with that obtain name where name: "name \<in> fst ` set sub"
        and l: "l = Link (node_name node) option (JStr name)" by auto
      from name have "name \<in> set (map node_name (child_nodes node b sub))"
        by (simp add: node_name_child_nodes)
      then have "JStr name \<in> (\<lambda>n. JStr (node_name n)) ` set ?nodes" by auto
      with Cons.prems(3) l show ?thesis by (simp add: link_known_def)
    qed
    with f Cons.prems(3) wf(2) show ?thesis by (intro Cons.IH) auto
  next
    case False
    with Cons.prems(1) kv obtain ev1 lb1 where
      r: "record_label outcome (node_id node @ str ''-end'') events labels = Inr (ev1, lb1)"
      and f: "for_children node items
            (b, nodes, ev1, lb1, links @ [Link (node_name node) option outcome])
          = Inr (b', nodes', events', labels', links')"
      by (cases outcome) (auto split: sum.splits)
    note mono = record_label_mono [OF r]
    have known: "py_in outcome ev1"
      using r py_eq_refl [OF wf(1)] by (rule record_label_known)
    have "link_known nodes ev1 l"
      if "l \<in> set (links @ [Link (node_name node) option outcome])" for l
    proof (cases "l \<in> set links")
      case True
      with Cons.prems(2) have "link_known nodes events l" by blast
      then show ?thesis by (rule link_known_mono) (auto intro: mono)
    next
      case False
      with that have "l = Link (node_name node) option outcome" by simp
      with known mono [OF Cons.prems(3)] show ?thesis by (simp add: link_known_def)
    qed
    with f mono [OF Cons.prems(3)] wf(2) show ?thesis by (intro Cons.IH) auto
  qed
qed

lemma node_children_child_nodes: "map node_children (child_nodes node b sub) = map snd sub"
  by (rule nth_equalityI) (simp_all add: nth_child_nodes)

lemma seed_nodes_children:
  "seed_nodes idx items = Inr nodes \<Longrightarrow> map node_children nodes = map snd items"
  by (induction idx items arbitrary: nodes rule: seed_nodes.induct)
     (auto split: sum.splits)

lemma wf_items_nested: "wf_items items \<Longrightarrow> wf_items (nested_entries items)"
proof -
  assume wf: "wf_items items"
  have "wf_json (snd kv)" if "kv \<in> set (nested_entries items)" for kv
  proof -
    from that obtain option sub where "(option, JObj sub) \<in> set items" "kv \<in> set sub"
      by (auto simp: nested_entries_def split: json.splits)
    with wf show ?thesis by (force simp: wf_items_iff)
  qed
  then show ?thesis by (simp add: wf_items_iff)
qed

lemma links_inv_step:
  assumes inv: "links_inv s" and ne: "fst s \<noteq> []" and body: "loop_body s = Inr s'"
  shows "links_inv s'"
proof -
  obtain nodes events labels links where s: "s = (nodes, events, labels, links)"
    by (cases s)
  obtain nodes' events' labels' links' where s': "s' = (nodes', events', labels', links')"
    by (cases s')
  from inv s have wf: "\<forall>n\<in>set nodes. wf_json (node_children n)"
    and known: "\<forall>l\<in>set links. link_known nodes events l"
    by (simp_all add: links_inv_def list_all_iff)
  from ne s have ne': "nodes \<noteq> []" by simp
  then have last_in: "last nodes \<in> set nodes" by simp
  have split: "n \<in> set (butlast nodes) \<or> n = last nodes" if "n \<in> set nodes" for n
  proof -
    from that have "n \<in> set (butlast nodes @ [last nodes])"
      by (simp only: append_butlast_last_id [OF ne'])
    then show ?thesis by auto
  qed
  from body [unfolded s s'] obtain items events1 labels1 b where
    ch: "node_children (last nodes) = JObj items" and
    r: "record_label (JStr (node_name (last nodes))) (node_id (last nodes)) events labels
       = Inr (events1, labels1)" and
    f: "for_children (last nodes) items (0, butlast nodes, events1, labels1, links)
       = Inr (b, nodes', events', labels', links')"
    by (rule loop_body_Inr)
  from wf last_in ch have wf_items: "wf_items items" by force
  have name_known: "py_in (JStr (node_name (last nodes))) events1"
    using r by (rule record_label_known) simp
  have "link_known (butlast nodes) events1 l" if "l \<in> set links" for l
  proof -
    from known that have "link_known nodes events l" by blast
    then show ?thesis
    proof (rule link_known_mono)
      fix n assume "n \<in> set nodes"
      then have "n \<in> set (butlast nodes) \<or> n = last nodes" by (rule split)
      with name_known
      show "n \<in> set (butlast nodes) \<or> py_in (JStr (node_name n)) events1" by auto
    qed (rule record_label_mono [OF r])
  qed
  then have "\<forall>l\<in>set links. link_known (butlast nodes) events1 l" by blast
  then have "\<forall>l\<in>set links'. link_known nodes' events' l"
    by (rule for_children_links [OF f _ name_known wf_items])
  moreover
  from for_children_nodes [OF f]
  have n': "nodes' = butlast nodes @ child_nodes (last nodes) 0 (nested_entries items)"
    by simp
  have "wf_json (node_children n)" if "n \<in> set nodes'" for n
  proof (cases "n \<in> set (butlast nodes)")
    case True
    with wf show ?thesis by (auto dest: in_set_butlastD)
  next
    case False
    with that n' have "n \<in> set (child_nodes (last nodes) 0 (nested_entries items))" by auto
    then have "node_children n
        \<in> set (map node_children (child_nodes (last nodes) 0 (nested_entries items)))"
      by simp
    then have "node_children n \<in> set (map snd (nested_entries items))"
      by (simp only: node_children_child_nodes)
    with wf_items_nested [OF wf_items] show ?thesis by (auto simp: wf_items_iff)
  qed
  ultimately show ?thesis by (simp add: links_inv_def s' list_all_iff)
qed

section \<open>Path ids of nodes\<close>






















section \<open>Runs on concrete documents\<close>

lemma run_two_endings:
  "parse_story
     (JObj [(str ''S'', JObj [(str ''A'', JStr (str ''E1'')), (str ''B'', JStr (str ''E2''))])])
   = Some (Inr (Graph
       [JStr (str ''S''), JStr (str ''E1''), JStr (str ''E2'')]
       [[str ''A''], [str ''A-end''], [str ''A-end'']]
       [Link (str ''S'') (str ''A'') (JStr (str ''E1'')),
        Link (str ''S'') (str ''B'') (JStr (str ''E2''))]))"
  by (simp add: run_simps)

lemma run_recurring_event:
  "parse_story
     (JObj [(str ''S'',
        JObj [(str ''A'', JObj [(str ''S'', JObj [(str ''B'', JStr (str ''E1''))])])])])
   = Some (Inr (Graph [JStr (str ''S''), JStr (str ''E1'')]
       [[str ''A'', str ''A-0''], [str ''A-0-end'']]
       [Link (str ''S'') (str ''A'') (JStr (str ''S'')),
        Link (str ''S'') (str ''B'') (JStr (str ''E1''))]))"
  by (simp add: run_simps)

lemma run_string_children:
  "parse_story (JObj [(str ''S'', JStr (str ''x''))]) = Some (Inl AttributeError)"
  by (simp add: run_simps)

lemma run_two_branches:
  "parse_story
     (JObj [(str ''S'',
        JObj [(str ''A'', JObj [(str ''T'', JObj [])]), (str ''B'', JObj [(str ''U'', JObj [])])])])
   = Some (Inr (Graph [JStr (str ''S''), JStr (str ''U''), JStr (str ''T'')]
       [[str ''A''], [str ''A-1''], [str ''A-0'']]
       [Link (str ''S'') (str ''A'') (JStr (str ''T'')),
        Link (str ''S'') (str ''B'') (JStr (str ''U''))]))"
  by (simp add: run_simps)

lemma step_two_branches:
  "loop_body
     ([Node (str ''S'')
         (JObj [(str ''A'', JObj [(str ''T'', JObj [])]), (str ''B'', JObj [(str ''U'', JObj [])])])
         (str ''A'')], [], [], [])
   = Inr ([Node (str ''T'') (JObj []) (str ''A-0''), Node (str ''U'') (JObj []) (str ''A-1'')],
          [JStr (str ''S'')], [[str ''A'']],
          [Link (str ''S'') (str ''A'') (JStr (str ''T'')),
           Link (str ''S'') (str ''B'') (JStr (str ''U''))])"
  by (simp add: run_simps)

section \<open>The scenarios\<close>

text \<open>
  C2, as the code has it: for \<open>{"S": {"A": "E1", "B": "E2"}}\<close> the pass returns
  \<open>events = ["S", "E1", "E2"]\<close> and \<open>links = [(S, A, E1), (S, B, E2)]\<close>, and both terminal
  outcomes are labelled with the path id of their parent node followed by \<open>-end\<close>, so
  \<open>labels = [["A"], ["A-end"], ["A-end"]]\<close>.
\<close>

theorem scenario1_labels_parent_end:
  "parse_story
     (JObj [(str ''S'', JObj [(str ''A'', JStr (str ''E1'')), (str ''B'', JStr (str ''E2''))])])
   = Some (Inr (Graph
       [JStr (str ''S''), JStr (str ''E1''), JStr (str ''E2'')]
       [[str ''A''], [str ''A-end''], [str ''A-end'']]
       [Link (str ''S'') (str ''A'') (JStr (str ''E1'')),
        Link (str ''S'') (str ''B'') (JStr (str ''E2''))]))"
  by (rule run_two_endings)

theorem scenario1_labels_parent_end_witness:
  "truthy (JObj [(str ''S'',
       JObj [(str ''A'', JStr (str ''E1'')), (str ''B'', JStr (str ''E2''))])])
   \<and> map_option (map_sum id graph_labels)
       (parse_story
         (JObj [(str ''S'',
            JObj [(str ''A'', JStr (str ''E1'')), (str ''B'', JStr (str ''E2''))])]))
     = Some (Inr [[str ''A''], [str ''A-end''], [str ''A-end'']])"
  using scenario1_labels_parent_end by simp

text \<open>The labels that C2 states, with \<open>"B-end"\<close> for the second outcome, are not returned.\<close>

theorem scenario1_not_B_end:
  "parse_story
     (JObj [(str ''S'', JObj [(str ''A'', JStr (str ''E1'')), (str ''B'', JStr (str ''E2''))])])
   \<noteq> Some (Inr (Graph
       [JStr (str ''S''), JStr (str ''E1''), JStr (str ''E2'')]
       [[str ''A''], [str ''A-end''], [str ''B-end'']]
       [Link (str ''S'') (str ''A'') (JStr (str ''E1'')),
        Link (str ''S'') (str ''B'') (JStr (str ''E2''))]))"
  by (simp add: run_two_endings) (simp add: str_def)

text \<open>
  C7: for \<open>{"S": {"A": {"S": {"B": "E1"}}}}\<close> the pass returns \<open>events = ["S", "E1"]\<close>, and
  \<open>labels[0]\<close> holds two distinct path ids, one for each occurrence of \<open>"S"\<close>.
\<close>

theorem scenario3_recurring_event:
  "\<exists>labels links p q.
     parse_story
       (JObj [(str ''S'',
          JObj [(str ''A'', JObj [(str ''S'', JObj [(str ''B'', JStr (str ''E1''))])])])])
       = Some (Inr (Graph [JStr (str ''S''), JStr (str ''E1'')] labels links))
     \<and> p \<in> set (labels ! 0) \<and> q \<in> set (labels ! 0) \<and> p \<noteq> q"
proof -
  have "str ''A'' \<noteq> str ''A-0''"
    by (simp add: str_def)
  with run_recurring_event show ?thesis
    by (intro exI [of _ "[[str ''A'', str ''A-0''], [str ''A-0-end'']]"]
        exI [of _ "[Link (str ''S'') (str ''A'') (JStr (str ''S'')),
            Link (str ''S'') (str ''B'') (JStr (str ''E1''))]"]
        exI [of _ "str ''A''"] exI [of _ "str ''A-0''"]) simp
qed

theorem scenario3_recurring_event_witness:
  "truthy (JObj [(str ''S'',
       JObj [(str ''A'', JObj [(str ''S'', JObj [(str ''B'', JStr (str ''E1''))])])])])
   \<and> (\<exists>r. parse_story
       (JObj [(str ''S'',
          JObj [(str ''A'', JObj [(str ''S'', JObj [(str ''B'', JStr (str ''E1''))])])])])
       = Some (Inr r) \<and> graph_events r = [JStr (str ''S''), JStr (str ''E1'')])"
  using scenario3_recurring_event by auto

text \<open>
  C8 at \<open>{"S": "x"}\<close>: the document is a non-empty mapping, so the root test lets it
  through; the node for \<open>"S"\<close> is popped and recorded, and \<open>node.children.items()\<close> on the
  string \<open>"x"\<close> raises \<open>AttributeError\<close>. No failure value is returned.
\<close>

theorem string_children_raise:
  "parse_story (JObj [(str ''S'', JStr (str ''x''))]) = Some (Inl AttributeError)"
  by (rule run_string_children)

theorem string_children_raise_witness:
  "truthy (JObj [(str ''S'', JStr (str ''x''))])
   \<and> isinstance_dict (JObj [(str ''S'', JStr (str ''x''))])
   \<and> parse_story (JObj [(str ''S'', JStr (str ''x''))]) \<noteq> Some (Inr NoneTriple)"
  using string_children_raise by simp

section \<open>The root test\<close>

text \<open>
  C6: a document that is not a non-empty mapping (the empty mapping included) makes
  \<open>parse_story\<close> return \<open>(None, None, None)\<close>: no events, labels or links.
\<close>

theorem invalid_root_returns_none:
  "\<not> (\<exists>items. story_data = JObj items \<and> items \<noteq> [])
     \<Longrightarrow> parse_story story_data = Some (Inr NoneTriple)"
  by (cases story_data) (simp_all add: parse_story_def)

theorem invalid_root_returns_none_witness:
  "\<not> (\<exists>items. JObj [] = JObj items \<and> items \<noteq> [])
     \<and> parse_story (JObj []) = Some (Inr NoneTriple)"
  using invalid_root_returns_none [of "JObj []"] by simp

section \<open>Termination\<close>

text \<open>
  C10: the pass returns on every document: a value or an exception, never a loop
  without end. Each iteration of \<open>while nodes\<close> replaces the popped node by nodes whose
  children are strict parts of its own, so the weight of the work list falls.
\<close>

theorem parse_story_returns: "\<exists>r. parse_story story_data = Some r"
proof (cases "\<not> truthy story_data \<or> \<not> isinstance_dict story_data")
  case True
  then show ?thesis by (simp add: parse_story_def)
next
  case False
  then obtain items where "story_data = JObj items" by (cases story_data) auto
  with False show ?thesis
    using while_nodes_returns by (auto simp: parse_story_def split: sum.splits)
qed

theorem parse_story_returns_witness:
  "\<exists>r. parse_story
     (JObj [(str ''S'', JObj [(str ''A'', JStr (str ''E1'')), (str ''B'', JStr (str ''E2''))])])
     = Some r"
  by (rule parse_story_returns)

section \<open>Labels stay parallel to events\<close>

text \<open>
  C5: when the pass returns a graph, \<open>events\<close> and \<open>labels\<close> have the same length and
  every \<open>labels[i]\<close> holds at least one path id.
\<close>

theorem labels_parallel_nonempty:
  assumes "parse_story story_data = Some (Inr (Graph events labels links))"
  shows "length events = length labels \<and> (\<forall>i<length labels. labels ! i \<noteq> [])"
proof -
  define P where "P = (\<lambda>(ev :: json list) (lb :: pystr list list).
    length ev = length lb \<and> [] \<notin> set lb)"
  define I where "I = (\<lambda>s :: Node list \<times> json list \<times> pystr list list \<times> Link list.
    P (fst (snd s)) (fst (snd (snd s))))"
  from assms obtain items nodes where
    w: "while_nodes (nodes, [], [], []) = Some (Inr (Graph events labels links))"
    by (rule parse_story_Graph)
  have rec: "P ev' lb'" if "P ev lb" "record_label x pid ev lb = Inr (ev', lb')"
    for x pid ev lb ev' lb'
    using record_label_shape [OF that(2)] that(1) by (simp add: P_def)
  from w have "I ([], events, labels, links)"
  proof (rule while_nodes_invariant)
    show "I (nodes, [], [], [])" by (simp add: I_def P_def)
  next
    fix s s' :: "Node list \<times> json list \<times> pystr list list \<times> Link list"
    assume inv: "I s" and b: "loop_body s = Inr s'"
    obtain n e l k where s: "s = (n, e, l, k)" by (cases s)
    obtain n' e' l' k' where s': "s' = (n', e', l', k')" by (cases s')
    from inv have "P e l" by (simp add: I_def s)
    with b [unfolded s s'] have "P e' l'"
      by (rule loop_body_events_labels) (rule rec)
    then show "I s'" by (simp add: I_def s')
  qed
  then show ?thesis by (auto simp: I_def P_def in_set_conv_nth)
qed

theorem labels_parallel_nonempty_witness:
  "parse_story
     (JObj [(str ''S'', JObj [(str ''A'', JStr (str ''E1'')), (str ''B'', JStr (str ''E2''))])])
   = Some (Inr (Graph
       [JStr (str ''S''), JStr (str ''E1''), JStr (str ''E2'')]
       [[str ''A''], [str ''A-end''], [str ''A-end'']]
       [Link (str ''S'') (str ''A'') (JStr (str ''E1'')),
        Link (str ''S'') (str ''B'') (JStr (str ''E2''))]))
   \<and> length [JStr (str ''S''), JStr (str ''E1''), JStr (str ''E2'')]
       = length [[str ''A''], [str ''A-end''], [str ''A-end'']]
   \<and> [[str ''A''], [str ''A-end''], [str ''A-end'']] ! 2 \<noteq> []"
  using labels_parallel_nonempty [OF run_two_endings] run_two_endings by simp

section \<open>Path ids of pushed children\<close>

text \<open>
  C1, as the code has it: when a popped node's outcomes hold nested mappings, the pushed
  children are the entries of all those mappings in order, and the k-th of them (counting
  from 0 across every nested mapping of this parent, since \<open>branch_idx\<close> grows by
  \<open>len(outcome)\<close> after each one) gets the path id of the parent, \<open>"-"\<close> and \<open>k\<close>.
\<close>

theorem child_ids_running_counter:
  assumes "nodes \<noteq> []"
    and "node_children (last nodes) = JObj items"
    and "loop_body (nodes, events, labels, links) = Inr (nodes', events', labels', links')"
  shows "\<exists>pushed. nodes' = butlast nodes @ pushed
           \<and> length pushed = length (nested_entries items)
           \<and> (\<forall>k<length pushed.
                 pushed ! k =
                   Node (fst (nested_entries items ! k)) (snd (nested_entries items ! k))
                     (node_id (last nodes) @ str ''-'' @ str_of_nat k))"
proof -
  from assms(3) obtain items' events1 labels1 b where
    "node_children (last nodes) = JObj items'" and
    f: "for_children (last nodes) items' (0, butlast nodes, events1, labels1, links)
       = Inr (b, nodes', events', labels', links')"
    by (rule loop_body_Inr)
  with assms(2) have "items' = items" by simp
  with for_children_nodes [OF f]
  have "nodes' = butlast nodes @ child_nodes (last nodes) 0 (nested_entries items)" by simp
  then show ?thesis
    by (intro exI [of _ "child_nodes (last nodes) 0 (nested_entries items)"])
       (simp add: nth_child_nodes)
qed

theorem child_ids_running_counter_witness:
  "[Node (str ''S'')
      (JObj [(str ''A'', JObj [(str ''T'', JObj [])]), (str ''B'', JObj [(str ''U'', JObj [])])])
      (str ''A'')] \<noteq> []
   \<and> (\<exists>pushed.
        [Node (str ''T'') (JObj []) (str ''A-0''), Node (str ''U'') (JObj []) (str ''A-1'')]
          = pushed
        \<and> length pushed = 2
        \<and> pushed ! 1 = Node (str ''U'') (JObj []) (str ''A'' @ str ''-'' @ str_of_nat 1))"
  using child_ids_running_counter [OF _ _ step_two_branches,
      of "[(str ''A'', JObj [(str ''T'', JObj [])]), (str ''B'', JObj [(str ''U'', JObj [])])]"]
  by (simp add: nested_entries_def str_def str_of_nat.simps)

text \<open>
  C1 as stated fails on \<open>{"S": {"A": {"T": {}}, "B": {"U": {}}}}\<close>: \<open>"U"\<close>, the first entry
  of the second nested mapping under \<open>"S"\<close>, is labelled \<open>"A-1"\<close>; an index restarting at 0
  for each nested mapping would label it \<open>"A-0"\<close>, as \<open>"T"\<close> is.
\<close>

theorem second_branch_index_continues:
  "parse_story
     (JObj [(str ''S'',
        JObj [(str ''A'', JObj [(str ''T'', JObj [])]), (str ''B'', JObj [(str ''U'', JObj [])])])])
   = Some (Inr (Graph [JStr (str ''S''), JStr (str ''U''), JStr (str ''T'')]
       [[str ''A''], [str ''A-1''], [str ''A-0'']]
       [Link (str ''S'') (str ''A'') (JStr (str ''T'')),
        Link (str ''S'') (str ''B'') (JStr (str ''U''))]))
   \<and> str ''A-1'' \<noteq> str ''A-0''"
  by (simp add: run_two_branches) (simp add: str_def)

section \<open>Every link end is an event\<close>

text \<open>
  C4: when the pass returns a graph for a decoded document (a value whose dicts have each
  key once), the source and the target of every \<open>links[i]\<close> are members of \<open>events\<close>, by
  Python's \<open>in\<close>.
\<close>

theorem links_complete:
  assumes "wf_json story_data"
    and "parse_story story_data = Some (Inr (Graph events labels links))"
  shows "\<forall>i<length links.
           py_in (JStr (link_event (links ! i))) events
           \<and> py_in (link_children (links ! i)) events"
proof -
  from assms(2) obtain items nodes where
    d: "story_data = JObj items" and seed: "seed_nodes 0 items = Inr nodes" and
    w: "while_nodes (nodes, [], [], []) = Some (Inr (Graph events labels links))"
    by (rule parse_story_Graph)
  from assms(1) d have "\<forall>kv\<in>set items. wf_json (snd kv)" by (simp add: wf_items_iff)
  then have "\<forall>c\<in>set (map node_children nodes). wf_json c"
    unfolding seed_nodes_children [OF seed] by simp
  then have "links_inv (nodes, [], [], [])" by (simp add: links_inv_def list_all_iff)
  with w have "links_inv ([], events, labels, links)"
    by (rule while_nodes_invariant) (rule links_inv_step)
  then show ?thesis by (simp add: links_inv_def list_all_iff link_known_def)
qed

theorem links_complete_witness:
  "wf_json
     (JObj [(str ''S'', JObj [(str ''A'', JStr (str ''E1'')), (str ''B'', JStr (str ''E2''))])])
   \<and> py_in (JStr (str ''S'')) [JStr (str ''S''), JStr (str ''E1''), JStr (str ''E2'')]
   \<and> py_in (JStr (str ''E2'')) [JStr (str ''S''), JStr (str ''E1''), JStr (str ''E2'')]"
proof -
  have wf: "wf_json
     (JObj [(str ''S'', JObj [(str ''A'', JStr (str ''E1'')), (str ''B'', JStr (str ''E2''))])])"
    by (simp add: str_def)
  from links_complete [OF wf run_two_endings, rule_format, of 1] wf
  show ?thesis by simp
qed

section \<open>Uniqueness of path ids\<close>




end
